theory Spec2Isabelle
  imports Main
begin

section \<open>Strings: the functions of Go's \<^verbatim>\<open>strings\<close> and \<^verbatim>\<open>path\<close> packages that resource.go calls\<close>

text \<open>
  A Go string is a sequence of bytes; it is modelled as \<^typ>\<open>string\<close>. An index
  expression out of range panics in Go; the model returns the panic as a value.
\<close>

datatype panic = IndexOutOfRange | MuxPanic

text \<open>
  \<^verbatim>\<open>strings.Split(s, sep)\<close> for a one-byte separator: cut at the first separator, keep
  what is before it and go on with what is after it; what is left at the end is the last
  part. The empty string splits into one empty part.
\<close>

function Split :: "string \<Rightarrow> char \<Rightarrow> string list" where
  "Split s sep =
     (case dropWhile (\<lambda>c. c \<noteq> sep) s of
        [] \<Rightarrow> [s]
      | _ # rest \<Rightarrow> takeWhile (\<lambda>c. c \<noteq> sep) s # Split rest sep)"
  by pat_completeness auto
termination
proof (relation "measure (\<lambda>(s, sep). length s)")
  show "wf (measure (\<lambda>(s, sep). length s))" by simp
next
  fix s :: string and sep :: char and x21 x22
  assume "dropWhile (\<lambda>c. c \<noteq> sep) s = x21 # x22"
  then have "length (dropWhile (\<lambda>c. c \<noteq> sep) s) = Suc (length x22)" by simp
  moreover have "length (dropWhile (\<lambda>c. c \<noteq> sep) s) \<le> length s"
    by (rule length_dropWhile_le)
  ultimately show "((x22, sep), (s, sep)) \<in> measure (\<lambda>(s, sep). length s)" by simp
qed

declare Split.simps [simp del]

text \<open>\<^verbatim>\<open>strings.HasPrefix\<close> and \<^verbatim>\<open>strings.TrimPrefix\<close>.\<close>

definition HasPrefix :: "string \<Rightarrow> string \<Rightarrow> bool" where
  "HasPrefix s pre = (length pre \<le> length s \<and> take (length pre) s = pre)"

definition TrimPrefix :: "string \<Rightarrow> string \<Rightarrow> string" where
  "TrimPrefix s pre = (if HasPrefix s pre then drop (length pre) s else s)"

text \<open>\<^verbatim>\<open>strings.Join(elems, sep)\<close>.\<close>

fun JoinStrings :: "string list \<Rightarrow> string \<Rightarrow> string" where
  "JoinStrings [] sep = []"
| "JoinStrings [e] sep = e"
| "JoinStrings (e # es) sep = e @ sep @ JoinStrings es sep"

text \<open>
  \<^verbatim>\<open>path.Clean\<close>. The Go loop reads the path at index \<open>r\<close> and writes a buffer of
  length \<open>w\<close>; here the unread rest of the path and the buffer's first \<open>w\<close> bytes are
  the arguments. \<open>backtrack\<close> is the inner loop of the \<^verbatim>\<open>..\<close> case: the byte just
  dropped is \<open>c\<close>, and bytes are dropped until it is a slash or the buffer is down to
  \<open>dotdot\<close>.
\<close>

function backtrack :: "nat \<Rightarrow> string \<Rightarrow> char \<Rightarrow> string" where
  "backtrack dotdot out c =
     (if length out > dotdot \<and> c \<noteq> CHR ''/'' then backtrack dotdot (butlast out) (last out)
      else out)"
  by pat_completeness auto
termination
  by (relation "measure (\<lambda>(dotdot, out, c). length out)") auto

declare backtrack.simps [simp del]

function clean_loop :: "bool \<Rightarrow> string \<Rightarrow> string \<Rightarrow> nat \<Rightarrow> string" where
  "clean_loop rooted [] out dotdot = out"
| "clean_loop rooted (c # cs) out dotdot =
     (if c = CHR ''/'' then clean_loop rooted cs out dotdot
      else if c = CHR ''.'' \<and> (cs = [] \<or> hd cs = CHR ''/'') then clean_loop rooted cs out dotdot
      else if c = CHR ''.'' \<and> hd cs = CHR ''.'' \<and> (tl cs = [] \<or> hd (tl cs) = CHR ''/'') then
        (if length out > dotdot then
           clean_loop rooted (tl cs) (backtrack dotdot (butlast out) (last out)) dotdot
         else if \<not> rooted then
           (let out' = (if length out > 0 then out @ ''/'' else out) @ ''..''
            in clean_loop rooted (tl cs) out' (length out'))
         else clean_loop rooted (tl cs) out dotdot)
      else
        (let out' = (if rooted \<and> length out \<noteq> 1 \<or> \<not> rooted \<and> length out \<noteq> 0
                     then out @ ''/'' else out)
         in clean_loop rooted (dropWhile (\<lambda>x. x \<noteq> CHR ''/'') cs)
              (out' @ c # takeWhile (\<lambda>x. x \<noteq> CHR ''/'') cs) dotdot))"
  by pat_completeness auto
termination
proof (relation "measure (\<lambda>(rooted, p, out, dotdot). length p)")
  show "wf (measure (\<lambda>(rooted, p, out, dotdot). length p))" by simp
next
  fix rooted c and cs :: string and out :: string and dotdot :: nat and x
  have "length (dropWhile (\<lambda>x. x \<noteq> CHR ''/'') cs) \<le> length cs"
    by (rule length_dropWhile_le)
  then show "((rooted, dropWhile (\<lambda>x. x \<noteq> CHR ''/'') cs, x @ c # takeWhile (\<lambda>x. x \<noteq> CHR ''/'') cs, dotdot),
              (rooted, c # cs, out, dotdot)) \<in> measure (\<lambda>(rooted, p, out, dotdot). length p)"
    by simp
qed auto

declare clean_loop.simps [simp del]

definition Clean :: "string \<Rightarrow> string" where
  "Clean p =
     (if p = [] then ''.''
      else
        (let rooted = (hd p = CHR ''/'');
             out = (if rooted then clean_loop True (tl p) ''/'' 1 else clean_loop False p [] 0)
         in if length out = 0 then ''.'' else out))"

text \<open>
  \<^verbatim>\<open>path.Join\<close>: the elements from the first non-empty one on, joined with slashes and
  cleaned; the empty string when every element is empty.
\<close>

definition Join :: "string list \<Rightarrow> string" where
  "Join elem =
     (case dropWhile (\<lambda>e. e = []) elem of
        [] \<Rightarrow> []
      | e # es \<Rightarrow> Clean (JoinStrings (e # es) ''/''))"

section \<open>Route parameters and the request context\<close>

text \<open>
  \<^verbatim>\<open>RouteParams\<close> is a Go map from strings to strings. A \<^verbatim>\<open>context.Context\<close> is a
  chain of key/value pairs above the background context; \<open>paramsKey\<close> is the one key of
  the package's private type \<^verbatim>\<open>ctxKey\<close>, every other key is an \<open>otherKey\<close>.
\<close>

type_synonym RouteParams = "string \<rightharpoonup> string"

datatype ctxKey = paramsKey | otherKey string

datatype ctxVal = ParamsVal RouteParams | OtherVal string

datatype Context = Background | WithValue Context ctxKey ctxVal

fun ctxValue :: "Context \<Rightarrow> ctxKey \<Rightarrow> ctxVal option" where
  "ctxValue Background k = None"
| "ctxValue (WithValue parent k' v) k = (if k = k' then Some v else ctxValue parent k)"

text \<open>The fields of \<^verbatim>\<open>http.Request\<close> that the handler reads.\<close>

record Request =
  Method :: string
  Path :: string
  Ctx :: Context

definition WithContext :: "Request \<Rightarrow> Context \<Rightarrow> Request" where
  "WithContext r ctx = r\<lparr>Ctx := ctx\<rparr>"

text \<open>
  The loop of \<^verbatim>\<open>NewContext\<close>: \<open>i\<close> is the index of the pattern part \<open>p\<close>, the loop
  stops when the request has no part \<open>i\<close>, and a part that starts with a colon stores the
  request's part under its name.
\<close>

fun match_loop :: "string list \<Rightarrow> string list \<Rightarrow> nat \<Rightarrow> RouteParams \<Rightarrow> RouteParams" where
  "match_loop urlParts [] i params = params"
| "match_loop urlParts (p # ps) i params =
     (if length urlParts \<le> i then params
      else
        (let u = urlParts ! i
         in match_loop urlParts ps (Suc i)
              (if length p > 0 \<and> hd p = CHR '':'' then params(tl p \<mapsto> u) else params)))"

definition matchParams :: "string \<Rightarrow> string \<Rightarrow> RouteParams" where
  "matchParams urlPath pattern =
     match_loop (Split urlPath CHR ''/'') (Split pattern CHR ''/'') 0 Map.empty"

definition NewContext :: "Context \<Rightarrow> Request \<Rightarrow> string \<Rightarrow> Context" where
  "NewContext ctx r pattern = WithValue ctx paramsKey (ParamsVal (matchParams (Path r) pattern))"

text \<open>
  \<^verbatim>\<open>FromContext\<close>: the value under \<open>paramsKey\<close> when it is a \<^verbatim>\<open>RouteParams\<close>; otherwise
  the nil map and \<open>False\<close>.
\<close>

definition FromContext :: "Context \<Rightarrow> RouteParams \<times> bool" where
  "FromContext ctx =
     (case ctxValue ctx paramsKey of
        Some (ParamsVal params) \<Rightarrow> (params, True)
      | _ \<Rightarrow> (Map.empty, False))"

text \<open>Reading a Go map at a key it does not hold gives the zero value, the empty string.\<close>

definition mapIndex :: "RouteParams \<Rightarrow> string \<Rightarrow> string" where
  "mapIndex params k = (case params k of None \<Rightarrow> [] | Some v \<Rightarrow> v)"

section \<open>The resource handler\<close>

text \<open>\<^verbatim>\<open>trimPath\<close> reads the last byte of its argument; on the empty string that panics.\<close>

definition trimPath :: "string \<Rightarrow> panic + string" where
  "trimPath p =
     (if p = [] then Inl IndexOutOfRange
      else if last p = CHR ''/'' then Inr (butlast p)
      else Inr p)"

record 'r resourceHandler =
  resource :: 'r
  prefix :: string

definition NewResourceHandler :: "string \<Rightarrow> 'r \<Rightarrow> panic + 'r resourceHandler" where
  "NewResourceHandler pre res =
     (if pre = [] then Inl IndexOutOfRange
      else
        (let pre' = (if last pre = CHR ''/'' then butlast pre else pre)
         in case trimPath pre' of
              Inl e \<Rightarrow> Inl e
            | Inr p \<Rightarrow> Inr \<lparr>resource = res, prefix = p\<rparr>))"

text \<open>
  What a call of \<^verbatim>\<open>ServeHTTP\<close> does, in order: an error reply with its status code, or
  the call of one of the five methods of the handler's resource with the request it is
  given.
\<close>

datatype action = Index | Create | Show | Update | Destroy

datatype event = Reply nat | Invoke action Request

definition StatusNotFound :: nat where
  "StatusNotFound = 404"

definition StatusMethodNotAllowed :: nat where
  "StatusMethodNotAllowed = 405"

definition ServeHTTP :: "'r resourceHandler \<Rightarrow> Request \<Rightarrow> panic + event list" where
  "ServeHTTP h r =
     (case trimPath (Path r) of
        Inl e \<Rightarrow> Inl e
      | Inr p \<Rightarrow>
          if \<not> HasPrefix p (prefix h) then Inr [Reply StatusNotFound]
          else if Method r = ''GET'' then
            (let s = TrimPrefix p (prefix h)
             in if length s > 0
                then Inr [Invoke Show (WithContext r (NewContext (Ctx r) r (Join [prefix h, '':id''])))]
                else Inr [Invoke Index r])
          else if Method r = ''POST'' then Inr [Invoke Create r]
          else if Method r = ''PUT'' then
            Inr [Invoke Update (WithContext r (NewContext (Ctx r) r (Join [prefix h, '':id''])))]
          else if Method r = ''DELETE'' then
            Inr [Invoke Destroy (WithContext r (NewContext (Ctx r) r (Join [prefix h, '':id''])))]
          else Inr [Reply StatusMethodNotAllowed])"

text \<open>The methods of the resource that a run of the handler called, in order.\<close>

fun invoked :: "event list \<Rightarrow> action list" where
  "invoked [] = []"
| "invoked (Reply n # es) = invoked es"
| "invoked (Invoke a r # es) = a # invoked es"

section \<open>The router\<close>

text \<open>
  \<^verbatim>\<open>http.ServeMux\<close> is the standard library's; of it the model keeps the list of
  registered entries, in the order of registration, and that \<^verbatim>\<open>Handle\<close> panics on the
  empty pattern and on a pattern that is already registered. A handler is a pointer:
  the router's \<open>handlers\<close> are the handler objects allocated so far, and an entry holds
  the index of its handler there.
\<close>

record 'r Router =
  handlers :: "'r resourceHandler list"
  mux :: "(string \<times> nat) list"

definition NewRouter :: "'r Router" where
  "NewRouter = \<lparr>handlers = [], mux = []\<rparr>"

definition muxHandle :: "'r Router \<Rightarrow> string \<Rightarrow> nat \<Rightarrow> panic + 'r Router" where
  "muxHandle router pattern h =
     (if pattern = [] \<or> pattern \<in> fst ` set (mux router) then Inl MuxPanic
      else Inr (router\<lparr>mux := mux router @ [(pattern, h)]\<rparr>))"

definition HandleResource :: "'r Router \<Rightarrow> string \<Rightarrow> 'r \<Rightarrow> panic + 'r Router" where
  "HandleResource router pattern res =
     (case trimPath pattern of
        Inl e \<Rightarrow> Inl e
      | Inr p \<Rightarrow>
          (case NewResourceHandler p res of
             Inl e \<Rightarrow> Inl e
           | Inr hv \<Rightarrow>
               (let h = length (handlers router);
                    router1 = router\<lparr>handlers := handlers router @ [hv]\<rparr>
                in case muxHandle router1 p h of
                     Inl e \<Rightarrow> Inl e
                   | Inr router2 \<Rightarrow> muxHandle router2 (p @ ''/'') h)))"

section \<open>Prefixes in cleaned form\<close>

text \<open>
  A segment that \<^verbatim>\<open>path.Clean\<close> keeps as it is: not empty, with no slash, and neither
  \<^verbatim>\<open>.\<close> nor \<^verbatim>\<open>..\<close>.
\<close>

definition plainSegment :: "string \<Rightarrow> bool" where
  "plainSegment s = (s \<noteq> [] \<and> CHR ''/'' \<notin> set s \<and> s \<noteq> ''.'' \<and> s \<noteq> ''..'')"

section \<open>Facts about splitting and about the matching loop\<close>

lemma Split_no_sep: "sep \<notin> set s \<Longrightarrow> Split s sep = [s]"
proof -
  assume "sep \<notin> set s"
  then have "dropWhile (\<lambda>c. c \<noteq> sep) s = []" by (auto simp: dropWhile_eq_Nil_conv)
  then show ?thesis by (subst Split.simps) (simp del: dropWhile_eq_Nil_conv)
qed

lemma Split_first: "sep \<notin> set a \<Longrightarrow> Split (a @ sep # b) sep = a # Split b sep"
proof -
  assume a: "sep \<notin> set a"
  then have d: "dropWhile (\<lambda>c. c \<noteq> sep) (a @ sep # b) = sep # b"
    by (induction a) auto
  from a have t: "takeWhile (\<lambda>c. c \<noteq> sep) (a @ sep # b) = a"
    by (induction a) auto
  show ?thesis by (subst Split.simps) (simp add: d t)
qed

lemma Split_append: "Split (xs @ sep # ys) sep = Split xs sep @ Split ys sep"
proof (induction xs rule: length_induct)
  case (1 xs)
  show ?case
  proof (cases "sep \<in> set xs")
    case False
    then show ?thesis by (simp add: Split_first Split_no_sep)
  next
    case True
    then obtain a b where xs: "xs = a @ sep # b" and a: "sep \<notin> set a"
      by (auto dest: split_list_first)
    have "length b < length xs" using xs by simp
    with 1 have "Split (b @ sep # ys) sep = Split b sep @ Split ys sep" by blast
    then show ?thesis using a by (simp add: xs Split_first)
  qed
qed

lemma Split_not_Nil: "Split s sep \<noteq> []"
  by (subst Split.simps) (simp split: list.splits)

lemma match_loop_done: "length urlParts \<le> i \<Longrightarrow> match_loop urlParts ps i params = params"
  by (cases ps) simp_all

lemma match_loop_append:
  "match_loop urlParts (ps @ qs) i params =
     match_loop urlParts qs (i + length ps) (match_loop urlParts ps i params)"
proof (induction ps arbitrary: i params)
  case Nil
  then show ?case by simp
next
  case (Cons p ps)
  show ?case
  proof (cases "length urlParts \<le> i")
    case True
    then show ?thesis by (simp add: match_loop_done)
  next
    case False
    then show ?thesis using Cons.IH by (simp add: Let_def)
  qed
qed

lemma match_loop_absent:
  "\<forall>p \<in> set ps. p \<noteq> CHR '':'' # k \<Longrightarrow> match_loop urlParts ps i params k = params k"
proof (induction ps arbitrary: i params)
  case Nil
  then show ?case by simp
next
  case (Cons p ps)
  have "p \<noteq> CHR '':'' # k" using Cons.prems by simp
  then have "length p > 0 \<and> hd p = CHR '':'' \<Longrightarrow> tl p \<noteq> k" by (cases p) auto
  moreover have "\<forall>p \<in> set ps. p \<noteq> CHR '':'' # k" using Cons.prems by simp
  ultimately show ?case using Cons.IH by (auto simp: Let_def)
qed

lemma Split_Nil: "Split [] sep = [[]]"
  by (subst Split.simps) simp

lemma Split_Cons:
  "Split (c # cs) sep =
     (if c = sep then [] # Split cs sep else (c # hd (Split cs sep)) # tl (Split cs sep))"
proof (cases "c = sep")
  case True
  then show ?thesis by (subst Split.simps) simp
next
  case False
  have "Split (c # cs) sep = (c # hd (Split cs sep)) # tl (Split cs sep)"
  proof (cases "sep \<in> set cs")
    case True
    then obtain a b where cs: "cs = a @ sep # b" and a: "sep \<notin> set a"
      by (auto dest: split_list_first)
    from a False have "sep \<notin> set (c # a)" by auto
    then have "Split ((c # a) @ sep # b) sep = (c # a) # Split b sep"
      by (rule Split_first)
    then show ?thesis using a by (simp add: cs Split_first)
  next
    case no: False
    with False have "sep \<notin> set (c # cs)" by auto
    then show ?thesis using no by (simp add: Split_no_sep)
  qed
  with False show ?thesis by simp
qed

lemma NewResourceHandler_panics:
  "isl (NewResourceHandler pre res) = (pre = [] \<or> pre = ''/'')"
proof (cases pre rule: rev_cases)
  case Nil
  then show ?thesis by (simp add: NewResourceHandler_def)
next
  case (snoc ys y)
  then show ?thesis
    by (cases ys rule: rev_cases) (auto simp: NewResourceHandler_def trimPath_def Let_def butlast_append)
qed


lemma trimPath_eq_Inr:
  "trimPath q = Inr p \<longleftrightarrow> q \<noteq> [] \<and> (q = p @ ''/'' \<or> (q = p \<and> last q \<noteq> CHR ''/''))"
proof (cases q rule: rev_cases)
  case Nil
  then show ?thesis by (simp add: trimPath_def)
next
  case (snoc ys y)
  then show ?thesis by (auto simp: trimPath_def)
qed

lemma HasPrefix_append: "HasPrefix (p @ s) p"
  by (simp add: HasPrefix_def)

lemma HasPrefix_refl: "HasPrefix p p"
  by (simp add: HasPrefix_def)

lemma TrimPrefix_append: "TrimPrefix (p @ s) p = s"
  by (simp add: TrimPrefix_def HasPrefix_def)


lemma Split_segment:
  assumes "CHR ''/'' \<notin> set seg" and "rest = [] \<or> hd rest = CHR ''/''"
  shows "\<exists>ts. Split (seg @ rest) CHR ''/'' = seg # ts"
proof (cases rest)
  case Nil
  then show ?thesis using assms by (simp add: Split_no_sep)
next
  case (Cons c cs)
  with assms have "rest = CHR ''/'' # cs" by simp
  then show ?thesis using assms by (simp add: Split_first)
qed

lemma matchParams_item:
  assumes "CHR ''/'' \<notin> set seg" and "rest = [] \<or> hd rest = CHR ''/''"
  shows "matchParams (P @ ''/'' @ seg @ rest) (P @ ''/:id'') ''id'' = Some seg"
proof -
  obtain ts where ts: "Split (seg @ rest) CHR ''/'' = seg # ts"
    using Split_segment [OF assms] by blast
  have url: "Split (P @ CHR ''/'' # seg @ rest) CHR ''/'' = Split P CHR ''/'' @ seg # ts"
    using Split_append [of P "CHR ''/''" "seg @ rest"] ts by simp
  have "Split '':id'' CHR ''/'' = ['':id'']" by (simp add: Split_no_sep)
  then have pat: "Split (P @ ''/:id'') CHR ''/'' = Split P CHR ''/'' @ ['':id'']"
    using Split_append [of P "CHR ''/''" "'':id''"] by simp
  show ?thesis
    by (simp add: matchParams_def url pat match_loop_append Let_def)
qed

lemma matchParams_collection:
  assumes "'':id'' \<notin> set (Split P CHR ''/'')"
  shows "matchParams P (P @ ''/:id'') ''id'' = None"
proof -
  have "Split '':id'' CHR ''/'' = ['':id'']" by (simp add: Split_no_sep)
  then have pat: "Split (P @ ''/:id'') CHR ''/'' = Split P CHR ''/'' @ ['':id'']"
    using Split_append [of P "CHR ''/''" "'':id''"] by simp
  have "\<forall>p \<in> set (Split P CHR ''/''). p \<noteq> CHR '':'' # ''id''" using assms by auto
  then have "match_loop (Split P CHR ''/'') (Split P CHR ''/'') 0 Map.empty ''id'' = None"
    by (simp add: match_loop_absent)
  then show ?thesis
    by (simp add: matchParams_def pat match_loop_append match_loop_done)
qed

lemma match_loop_absent_in_range:
  "(\<And>j. j < length ps \<Longrightarrow> i + j < length urlParts \<Longrightarrow> ps ! j \<noteq> CHR '':'' # k) \<Longrightarrow>
   match_loop urlParts ps i params k = params k"
proof (induction ps arbitrary: i params)
  case Nil
  then show ?case by simp
next
  case (Cons p ps)
  show ?case
  proof (cases "length urlParts \<le> i")
    case True
    then show ?thesis by simp
  next
    case False
    then have "(p # ps) ! 0 \<noteq> CHR '':'' # k" using Cons.prems [of 0] by simp
    then have p: "length p > 0 \<and> hd p = CHR '':'' \<Longrightarrow> tl p \<noteq> k" by (cases p) auto
    have "\<And>j. j < length ps \<Longrightarrow> Suc i + j < length urlParts \<Longrightarrow> ps ! j \<noteq> CHR '':'' # k"
      using Cons.prems [of "Suc j" for j] by simp
    then have "match_loop urlParts ps (Suc i) params' k = params' k" for params'
      by (rule Cons.IH)
    then show ?thesis using False p by (auto simp: Let_def)
  qed
qed

lemma match_loop_last:
  "j < length ps \<Longrightarrow> i + j < length urlParts \<Longrightarrow> ps ! j = CHR '':'' # k \<Longrightarrow>
   (\<And>j'. j < j' \<Longrightarrow> j' < length ps \<Longrightarrow> i + j' < length urlParts \<Longrightarrow> ps ! j' \<noteq> CHR '':'' # k) \<Longrightarrow>
   match_loop urlParts ps i params k = Some (urlParts ! (i + j))"
proof (induction ps arbitrary: i j params)
  case Nil
  then show ?case by simp
next
  case (Cons p ps)
  from Cons.prems(2) have i: "\<not> length urlParts \<le> i" by simp
  show ?case
  proof (cases j)
    case 0
    with Cons.prems(3) have p: "p = CHR '':'' # k" by simp
    have "\<And>j'. j' < length ps \<Longrightarrow> Suc i + j' < length urlParts \<Longrightarrow> ps ! j' \<noteq> CHR '':'' # k"
      using Cons.prems(4) [of "Suc j'" for j'] 0 by simp
    then have "match_loop urlParts ps (Suc i) params' k = params' k" for params'
      by (rule match_loop_absent_in_range)
    then show ?thesis using i p 0 by (simp add: Let_def)
  next
    case (Suc j0)
    have a: "j0 < length ps" using Cons.prems(1) Suc by simp
    have b: "Suc i + j0 < length urlParts" using Cons.prems(2) Suc by simp
    have c: "ps ! j0 = CHR '':'' # k" using Cons.prems(3) Suc by simp
    have d: "\<And>j'. j0 < j' \<Longrightarrow> j' < length ps \<Longrightarrow> Suc i + j' < length urlParts \<Longrightarrow>
               ps ! j' \<noteq> CHR '':'' # k"
      using Cons.prems(4) [of "Suc j'" for j'] Suc by simp
    have "match_loop urlParts ps (Suc i) params' k = Some (urlParts ! (Suc i + j0))" for params'
      using a b c d by (rule Cons.IH)
    then show ?thesis using i Suc by (simp add: Let_def)
  qed
qed

lemma placeholder_iff:
  "(p \<noteq> [] \<and> hd p = CHR '':'' \<and> tl p = k \<and> Q) = (p = CHR '':'' # k \<and> Q)"
  by (cases p) auto

lemma muxHandle_Inr:
  "muxHandle router pattern h = Inr router' \<longleftrightarrow>
     pattern \<noteq> [] \<and> pattern \<notin> fst ` set (mux router) \<and>
     router' = router\<lparr>mux := mux router @ [(pattern, h)]\<rparr>"
  by (auto simp: muxHandle_def)

lemma clean_loop_segment:
  assumes s: "plainSegment s" and rest: "rest = [] \<or> hd rest = CHR ''/''"
  shows "clean_loop True (s @ rest) out dotdot =
           clean_loop True rest ((if length out \<noteq> 1 then out @ ''/'' else out) @ s) dotdot"
proof -
  from s obtain c cs where cs: "s = c # cs" by (cases s) (auto simp: plainSegment_def)
  from s cs have c: "c \<noteq> CHR ''/''" and ncs: "CHR ''/'' \<notin> set cs"
    by (auto simp: plainSegment_def)
  have dot: "\<not> (c = CHR ''.'' \<and> (cs @ rest = [] \<or> hd (cs @ rest) = CHR ''/''))"
  proof (cases cs)
    case Nil
    then show ?thesis using s cs by (auto simp: plainSegment_def)
  next
    case (Cons d ds)
    then show ?thesis using ncs by auto
  qed
  have dotdot: "\<not> (c = CHR ''.'' \<and> hd (cs @ rest) = CHR ''.'' \<and>
                   (tl (cs @ rest) = [] \<or> hd (tl (cs @ rest)) = CHR ''/''))"
  proof (cases cs)
    case Nil
    then show ?thesis using s cs by (auto simp: plainSegment_def)
  next
    case outer: (Cons d ds)
    show ?thesis
    proof (cases ds)
      case Nil
      then show ?thesis using s cs outer by (auto simp: plainSegment_def)
    next
      case (Cons e es)
      then show ?thesis using ncs outer by auto
    qed
  qed
  have dr: "dropWhile (\<lambda>x. x \<noteq> CHR ''/'') (cs @ rest) = rest"
  proof -
    have "dropWhile (\<lambda>x. x \<noteq> CHR ''/'') (cs @ rest) = dropWhile (\<lambda>x. x \<noteq> CHR ''/'') rest"
      using ncs by (intro dropWhile_append2) auto
    also have "\<dots> = rest" using rest by (cases rest) auto
    finally show ?thesis .
  qed
  have tk: "takeWhile (\<lambda>x. x \<noteq> CHR ''/'') (cs @ rest) = cs"
  proof -
    have "takeWhile (\<lambda>x. x \<noteq> CHR ''/'') (cs @ rest) = cs @ takeWhile (\<lambda>x. x \<noteq> CHR ''/'') rest"
      using ncs by (intro takeWhile_append2) auto
    also have "\<dots> = cs" using rest by (cases rest) auto
    finally show ?thesis .
  qed
  have "clean_loop True (c # (cs @ rest)) out dotdot =
          clean_loop True rest ((if length out \<noteq> 1 then out @ ''/'' else out) @ c # cs) dotdot"
    by (subst clean_loop.simps(2), subst if_not_P [OF c], subst if_not_P [OF dot],
        subst if_not_P [OF dotdot], simp add: Let_def dr tk)
  then show ?thesis by (simp add: cs)
qed

lemma clean_loop_segments:
  assumes "\<forall>s \<in> set segs. plainSegment s" and "length out \<noteq> 1"
  shows "clean_loop True (concat (map ((#) CHR ''/'') segs)) out dotdot =
           out @ concat (map ((#) CHR ''/'') segs)"
  using assms
proof (induction segs arbitrary: out)
  case Nil
  then show ?case by (simp add: clean_loop.simps)
next
  case (Cons s segs)
  let ?rest = "concat (map ((#) CHR ''/'') segs)"
  have s: "plainSegment s" using Cons.prems by simp
  have rest: "?rest = [] \<or> hd ?rest = CHR ''/''" by (cases segs) auto
  have ne: "s \<noteq> []" using s by (simp add: plainSegment_def)
  have "clean_loop True (CHR ''/'' # s @ ?rest) out dotdot = clean_loop True (s @ ?rest) out dotdot"
    by (simp add: clean_loop.simps)
  also have "\<dots> = clean_loop True ?rest ((out @ ''/'') @ s) dotdot"
    using clean_loop_segment [OF s rest, of out dotdot] Cons.prems(2) by simp
  also have "\<dots> = ((out @ ''/'') @ s) @ ?rest"
    using Cons.prems(1) ne by (intro Cons.IH) auto
  finally show ?case by simp
qed

lemma Clean_plain:
  assumes "segs \<noteq> []" and "\<forall>s \<in> set segs. plainSegment s"
  shows "Clean (concat (map ((#) CHR ''/'') segs)) = concat (map ((#) CHR ''/'') segs)"
proof -
  from assms(1) obtain s ss where segs: "segs = s # ss" by (cases segs) auto
  let ?rest = "concat (map ((#) CHR ''/'') ss)"
  have s: "plainSegment s" and ss: "\<forall>s \<in> set ss. plainSegment s"
    using assms(2) segs by simp_all
  have ne: "s \<noteq> []" using s by (simp add: plainSegment_def)
  have rest: "?rest = [] \<or> hd ?rest = CHR ''/''" by (cases ss) auto
  have "clean_loop True (s @ ?rest) ''/'' 1 = clean_loop True ?rest (''/'' @ s) 1"
    using clean_loop_segment [OF s rest, of "''/''" 1] by simp
  also have "\<dots> = (''/'' @ s) @ ?rest"
    using ss ne by (intro clean_loop_segments) auto
  finally show ?thesis by (simp add: Clean_def segs)
qed

section \<open>The claims\<close>

subsection \<open>C1: the item routes\<close>

text \<open>
  C1, as the claim states it, fails for a prefix that \<^verbatim>\<open>path.Join\<close> rewrites: the
  pattern is built from the cleaned prefix, the request is split as it came in, and the
  parts no longer line up. The handler for \<^verbatim>\<open>/a//b\<close> answers GET \<^verbatim>\<open>/a//b/7\<close> with Show
  and \<^verbatim>\<open>id\<close> bound to \<^verbatim>\<open>b\<close>.
\<close>

theorem item_dispatch_unclean_prefix_counterexample:
  "NewResourceHandler ''/a//b'' () = Inr \<lparr>resource = (), prefix = ''/a//b''\<rparr> \<and>
   ServeHTTP \<lparr>resource = (), prefix = ''/a//b''\<rparr>
     \<lparr>Method = ''GET'', Path = ''/a//b/7'', Ctx = Background\<rparr> =
       Inr [Invoke Show \<lparr>Method = ''GET'', Path = ''/a//b/7'',
                          Ctx = WithValue Background paramsKey (ParamsVal [''id'' \<mapsto> ''b''])\<rparr>] \<and>
   [''id'' \<mapsto> ''b''] ''id'' \<noteq> Some ''7''"
proof -
  have 1: "NewResourceHandler ''/a//b'' () = Inr \<lparr>resource = (), prefix = ''/a//b''\<rparr>"
    by (simp add: NewResourceHandler_def trimPath_def)
  have j: "Join [''/a//b'', '':id''] = ''/a/b/:id''"
    by (simp add: Join_def Clean_def clean_loop.simps)
  have m: "matchParams ''/a//b/7'' ''/a/b/:id'' = [''id'' \<mapsto> ''b'']"
    by (simp add: matchParams_def Split_Nil Split_Cons)
  have 2: "ServeHTTP \<lparr>resource = (), prefix = ''/a//b''\<rparr>
     \<lparr>Method = ''GET'', Path = ''/a//b/7'', Ctx = Background\<rparr> =
       Inr [Invoke Show \<lparr>Method = ''GET'', Path = ''/a//b/7'',
                          Ctx = WithValue Background paramsKey (ParamsVal [''id'' \<mapsto> ''b''])\<rparr>]"
    by (simp add: ServeHTTP_def trimPath_def HasPrefix_def TrimPrefix_def j m
        NewContext_def WithContext_def)
  from 1 2 show ?thesis by simp
qed

text \<open>
  C1, amended. For a handler whose prefix P is in cleaned form, that is
  \<^verbatim>\<open>path.Join(P, ":id")\<close> is P followed by \<^verbatim>\<open>/:id\<close>, and a request whose path is P, a
  slash, a non-empty segment \<open>seg\<close> with no slash in it, and then nothing or a slash and
  anything: GET is given to Show, PUT to Update and DELETE to Destroy, each once, with
  route parameters attached to the request's context that map \<^verbatim>\<open>id\<close> to \<open>seg\<close>.
\<close>

theorem item_dispatch_id:
  assumes clean: "Join [prefix h, '':id''] = prefix h @ ''/:id''"
    and path: "Path r = prefix h @ ''/'' @ seg @ rest"
    and seg: "seg \<noteq> []" "CHR ''/'' \<notin> set seg"
    and rest: "rest = [] \<or> hd rest = CHR ''/''"
    and verb: "Method r = ''GET'' \<or> Method r = ''PUT'' \<or> Method r = ''DELETE''"
  shows "\<exists>params.
           ServeHTTP h r =
             Inr [Invoke (if Method r = ''GET'' then Show
                          else if Method r = ''PUT'' then Update else Destroy)
                    (r\<lparr>Ctx := WithValue (Ctx r) paramsKey (ParamsVal params)\<rparr>)] \<and>
           FromContext (WithValue (Ctx r) paramsKey (ParamsVal params)) = (params, True) \<and>
           params ''id'' = Some seg"
proof -
  let ?params = "matchParams (Path r) (Join [prefix h, '':id''])"
  have id: "?params ''id'' = Some seg"
    using matchParams_item [OF seg(2) rest, of "prefix h"] by (simp add: clean path)
  have "Path r \<noteq> []" using path by simp
  then have "\<exists>p. trimPath (Path r) = Inr p \<and> (p = Path r \<or> p = butlast (Path r))"
    by (simp add: trimPath_def)
  then obtain p where p: "trimPath (Path r) = Inr p" and pp: "p = Path r \<or> p = butlast (Path r)"
    by blast
  have hp: "HasPrefix p (prefix h)" and tp: "TrimPrefix p (prefix h) \<noteq> []"
  proof -
    from pp have "\<exists>s. p = prefix h @ s \<and> s \<noteq> []"
    proof
      assume "p = Path r"
      then show ?thesis using path by simp
    next
      assume "p = butlast (Path r)"
      then have "p = prefix h @ butlast (''/'' @ seg @ rest)"
        using path by (simp add: butlast_append)
      moreover have "butlast (''/'' @ seg @ rest) \<noteq> []" using seg(1) by simp
      ultimately show ?thesis by blast
    qed
    then obtain s where s: "p = prefix h @ s" "s \<noteq> []" by blast
    show "HasPrefix p (prefix h)" by (simp add: s HasPrefix_append)
    show "TrimPrefix p (prefix h) \<noteq> []" by (simp add: s TrimPrefix_append)
  qed
  have "ServeHTTP h r =
          Inr [Invoke (if Method r = ''GET'' then Show
                       else if Method r = ''PUT'' then Update else Destroy)
                 (r\<lparr>Ctx := WithValue (Ctx r) paramsKey (ParamsVal ?params)\<rparr>)]"
    using verb p hp tp by (auto simp: ServeHTTP_def NewContext_def WithContext_def)
  moreover have "FromContext (WithValue (Ctx r) paramsKey (ParamsVal ?params)) = (?params, True)"
    by (simp add: FromContext_def)
  ultimately show ?thesis using id by blast
qed

theorem item_dispatch_id_witness:
  "Join [prefix \<lparr>resource = (), prefix = ''/posts''\<rparr>, '':id''] = ''/posts/:id'' \<and>
   (\<exists>params.
      ServeHTTP \<lparr>resource = (), prefix = ''/posts''\<rparr>
        \<lparr>Method = ''GET'', Path = ''/posts/23/comments'', Ctx = Background\<rparr> =
          Inr [Invoke Show \<lparr>Method = ''GET'', Path = ''/posts/23/comments'',
                             Ctx = WithValue Background paramsKey (ParamsVal params)\<rparr>] \<and>
      params ''id'' = Some ''23'')"
proof -
  let ?h = "\<lparr>resource = (), prefix = ''/posts''\<rparr>"
  let ?r = "\<lparr>Method = ''GET'', Path = ''/posts/23/comments'', Ctx = Background\<rparr>"
  have a: "Join [prefix ?h, '':id''] = prefix ?h @ ''/:id''"
    by (simp add: Join_def Clean_def clean_loop.simps)
  have b: "Path ?r = prefix ?h @ ''/'' @ ''23'' @ ''/comments''" by simp
  have c: "''23'' \<noteq> []" by simp
  have d: "CHR ''/'' \<notin> set ''23''" by simp
  have e: "''/comments'' = [] \<or> hd ''/comments'' = CHR ''/''" by simp
  have f: "Method ?r = ''GET'' \<or> Method ?r = ''PUT'' \<or> Method ?r = ''DELETE''" by simp
  from item_dispatch_id [OF a b c d e f] a show ?thesis by auto
qed

subsection \<open>C2: the matcher\<close>

text \<open>
  \<open>NewContext\<close> has no failing branch: the model returns a context, not a sum. C2, as
  the claim states it, asks for one entry for each index whose pattern segment starts
  with a colon. That fails when two such segments share a name: the map holds one value
  for the name, the later one. For the pattern \<^verbatim>\<open>/:a/:a\<close> and the path \<^verbatim>\<open>/x/y\<close>, index 1
  pairs \<^verbatim>\<open>a\<close> with \<^verbatim>\<open>x\<close>, and the map is \<^verbatim>\<open>a\<close> to \<^verbatim>\<open>y\<close> alone.
\<close>

theorem NewContext_duplicate_name_counterexample:
  "(1::nat) < min (length (Split ''/:a/:a'' CHR ''/'')) (length (Split ''/x/y'' CHR ''/'')) \<and>
   Split ''/:a/:a'' CHR ''/'' ! 1 = '':a'' \<and>
   Split ''/x/y'' CHR ''/'' ! 1 = ''x'' \<and>
   fst (FromContext (NewContext Background \<lparr>Method = ''GET'', Path = ''/x/y'', Ctx = Background\<rparr>
          ''/:a/:a'')) = [''a'' \<mapsto> ''y''] \<and>
   [''a'' \<mapsto> ''y''] ''a'' \<noteq> Some ''x''"
  by (simp add: Split_Nil Split_Cons FromContext_def NewContext_def matchParams_def)

text \<open>
  C2, amended. For every pattern and request path the matcher returns a context that
  holds route parameters, with no error. After both are split at the slashes, the
  mapping sends \<open>k\<close> to \<open>v\<close> exactly when some index below the shorter length has a
  pattern segment that is not empty, begins with a colon and is named \<open>k\<close>, the
  request's segment there is \<open>v\<close>, and no later index below that length has a pattern
  segment with the same name. Only the segments that begin with a colon count: a
  literal segment is never compared with the request's.
\<close>

theorem NewContext_last_placeholder_wins:
  "snd (FromContext (NewContext ctx r pattern)) \<and>
   (fst (FromContext (NewContext ctx r pattern)) k = Some v) =
     (\<exists>i < min (length (Split pattern CHR ''/'')) (length (Split (Path r) CHR ''/'')).
        Split pattern CHR ''/'' ! i \<noteq> [] \<and>
        hd (Split pattern CHR ''/'' ! i) = CHR '':'' \<and>
        tl (Split pattern CHR ''/'' ! i) = k \<and>
        Split (Path r) CHR ''/'' ! i = v \<and>
        (\<forall>j. i < j \<and> j < min (length (Split pattern CHR ''/'')) (length (Split (Path r) CHR ''/'')) \<longrightarrow>
             Split pattern CHR ''/'' ! j \<noteq> CHR '':'' # k))"
proof -
  define urlParts where "urlParts = Split (Path r) CHR ''/''"
  define patParts where "patParts = Split pattern CHR ''/''"
  define n where "n = min (length (Split pattern CHR ''/'')) (length (Split (Path r) CHR ''/''))"
  have fc: "FromContext (NewContext ctx r pattern) = (matchParams (Path r) pattern, True)"
    by (simp add: FromContext_def NewContext_def)
  have mp: "matchParams (Path r) pattern = match_loop urlParts patParts 0 Map.empty"
    by (simp add: matchParams_def urlParts_def patParts_def)
  have n: "n = min (length patParts) (length urlParts)"
    by (simp add: n_def urlParts_def patParts_def)
  let ?S = "{i. i < n \<and> patParts ! i = CHR '':'' # k}"
  have "(match_loop urlParts patParts 0 Map.empty k = Some v) =
          (\<exists>i<n. patParts ! i = CHR '':'' # k \<and> urlParts ! i = v \<and>
                  (\<forall>j. i < j \<and> j < n \<longrightarrow> patParts ! j \<noteq> CHR '':'' # k))"
    (is "?L = ?R")
  proof
    assume R: ?R
    then obtain i where i: "i < n" "patParts ! i = CHR '':'' # k" "urlParts ! i = v"
      and later: "\<forall>j. i < j \<and> j < n \<longrightarrow> patParts ! j \<noteq> CHR '':'' # k" by blast
    have "match_loop urlParts patParts 0 Map.empty k = Some (urlParts ! (0 + i))"
    proof (rule match_loop_last)
      show "i < length patParts" using i(1) n by simp
      show "0 + i < length urlParts" using i(1) n by simp
      show "patParts ! i = CHR '':'' # k" by (rule i(2))
      show "patParts ! j' \<noteq> CHR '':'' # k"
        if "i < j'" "j' < length patParts" "0 + j' < length urlParts" for j'
        using that later n by simp
    qed
    then show ?L using i(3) by simp
  next
    assume L: ?L
    have ne: "?S \<noteq> {}"
    proof
      assume "?S = {}"
      then have "\<And>j. j < length patParts \<Longrightarrow> 0 + j < length urlParts \<Longrightarrow>
                   patParts ! j \<noteq> CHR '':'' # k"
        using n by auto
      then have "match_loop urlParts patParts 0 Map.empty k = Map.empty k"
        by (rule match_loop_absent_in_range)
      with L show False by simp
    qed
    have fin: "finite ?S" by simp
    define i where "i = Max ?S"
    have "i \<in> ?S" unfolding i_def using fin ne by (rule Max_in)
    then have i: "i < n" "patParts ! i = CHR '':'' # k" by simp_all
    have later: "patParts ! j \<noteq> CHR '':'' # k" if "i < j" "j < n" for j
    proof
      assume "patParts ! j = CHR '':'' # k"
      with that have "j \<in> ?S" by simp
      then have "j \<le> i" unfolding i_def using fin by (simp add: Max_ge)
      with that show False by simp
    qed
    have "match_loop urlParts patParts 0 Map.empty k = Some (urlParts ! (0 + i))"
    proof (rule match_loop_last)
      show "i < length patParts" using i(1) n by simp
      show "0 + i < length urlParts" using i(1) n by simp
      show "patParts ! i = CHR '':'' # k" by (rule i(2))
      show "patParts ! j' \<noteq> CHR '':'' # k"
        if "i < j'" "j' < length patParts" "0 + j' < length urlParts" for j'
        using that later n by simp
    qed
    with L have "urlParts ! i = v" by simp
    with i later show ?R by blast
  qed
  then have "(matchParams (Path r) pattern k = Some v) =
          (\<exists>i<n. patParts ! i = CHR '':'' # k \<and> urlParts ! i = v \<and>
                  (\<forall>j. i < j \<and> j < n \<longrightarrow> patParts ! j \<noteq> CHR '':'' # k))"
    by (simp only: mp)
  then show ?thesis
    unfolding urlParts_def patParts_def n_def by (simp add: fc placeholder_iff)
qed

theorem NewContext_last_placeholder_wins_witness:
  "fst (FromContext (NewContext Background \<lparr>Method = ''GET'', Path = ''/x/y'', Ctx = Background\<rparr>
          ''/:a/:b'')) ''a'' = Some ''x''"
proof -
  let ?r = "\<lparr>Method = ''GET'', Path = ''/x/y'', Ctx = Background\<rparr>"
  have sp: "Split ''/:a/:b'' CHR ''/'' = ['''', '':a'', '':b'']"
    by (simp add: Split_Nil Split_Cons)
  have su: "Split ''/x/y'' CHR ''/'' = ['''', ''x'', ''y'']"
    by (simp add: Split_Nil Split_Cons)
  have later: "\<forall>j. 1 < j \<and> j < min (length (Split ''/:a/:b'' CHR ''/'')) (length (Split (Path ?r) CHR ''/'')) \<longrightarrow>
                 Split ''/:a/:b'' CHR ''/'' ! j \<noteq> CHR '':'' # ''a''"
  proof (intro allI impI)
    fix j :: nat
    assume "1 < j \<and> j < min (length (Split ''/:a/:b'' CHR ''/'')) (length (Split (Path ?r) CHR ''/''))"
    then have "j = 2" by (simp add: sp su)
    then show "Split ''/:a/:b'' CHR ''/'' ! j \<noteq> CHR '':'' # ''a''" by (simp add: sp)
  qed
  have "\<exists>i < min (length (Split ''/:a/:b'' CHR ''/'')) (length (Split (Path ?r) CHR ''/'')).
          Split ''/:a/:b'' CHR ''/'' ! i \<noteq> [] \<and>
          hd (Split ''/:a/:b'' CHR ''/'' ! i) = CHR '':'' \<and>
          tl (Split ''/:a/:b'' CHR ''/'' ! i) = ''a'' \<and>
          Split (Path ?r) CHR ''/'' ! i = ''x'' \<and>
          (\<forall>j. i < j \<and> j < min (length (Split ''/:a/:b'' CHR ''/'')) (length (Split (Path ?r) CHR ''/'')) \<longrightarrow>
               Split ''/:a/:b'' CHR ''/'' ! j \<noteq> CHR '':'' # ''a'')"
  proof (intro exI [of _ 1] conjI)
    show "1 < min (length (Split ''/:a/:b'' CHR ''/'')) (length (Split (Path ?r) CHR ''/''))"
      by (simp add: sp su)
    show "Split ''/:a/:b'' CHR ''/'' ! 1 \<noteq> []" by (simp add: sp)
    show "hd (Split ''/:a/:b'' CHR ''/'' ! 1) = CHR '':''" by (simp add: sp)
    show "tl (Split ''/:a/:b'' CHR ''/'' ! 1) = ''a''" by (simp add: sp)
    show "Split (Path ?r) CHR ''/'' ! 1 = ''x''" by (simp add: su)
    show "\<forall>j. 1 < j \<and> j < min (length (Split ''/:a/:b'' CHR ''/'')) (length (Split (Path ?r) CHR ''/'')) \<longrightarrow>
               Split ''/:a/:b'' CHR ''/'' ! j \<noteq> CHR '':'' # ''a''"
      by (rule later)
  qed
  with NewContext_last_placeholder_wins [of Background ?r "''/:a/:b''" "''a''" "''x''"]
  show ?thesis by blast
qed

subsection \<open>C3: GET on the collection\<close>




subsection \<open>C4: PUT and DELETE on the collection\<close>

text \<open>
  C4, as the claim states it, fails for a prefix that \<^verbatim>\<open>path.Join\<close> rewrites: the
  handler for \<^verbatim>\<open>/a//b\<close> answers PUT \<^verbatim>\<open>/a//b\<close> with Update and \<^verbatim>\<open>id\<close> bound to \<^verbatim>\<open>b\<close>,
  not to the empty string.
\<close>

theorem collection_put_unclean_prefix_counterexample:
  "NewResourceHandler ''/a//b'' () = Inr \<lparr>resource = (), prefix = ''/a//b''\<rparr> \<and>
   trimPath ''/a//b'' = Inr ''/a//b'' \<and>
   ServeHTTP \<lparr>resource = (), prefix = ''/a//b''\<rparr>
     \<lparr>Method = ''PUT'', Path = ''/a//b'', Ctx = Background\<rparr> =
       Inr [Invoke Update \<lparr>Method = ''PUT'', Path = ''/a//b'',
                            Ctx = WithValue Background paramsKey (ParamsVal [''id'' \<mapsto> ''b''])\<rparr>] \<and>
   mapIndex [''id'' \<mapsto> ''b''] ''id'' = ''b''"
proof -
  have 1: "NewResourceHandler ''/a//b'' () = Inr \<lparr>resource = (), prefix = ''/a//b''\<rparr>"
    by (simp add: NewResourceHandler_def trimPath_def)
  have t: "trimPath ''/a//b'' = Inr ''/a//b''" by (simp add: trimPath_def)
  have j: "Join [''/a//b'', '':id''] = ''/a/b/:id''"
    by (simp add: Join_def Clean_def clean_loop.simps)
  have m: "matchParams ''/a//b'' ''/a/b/:id'' = [''id'' \<mapsto> ''b'']"
    by (simp add: matchParams_def Split_Nil Split_Cons)
  have 2: "ServeHTTP \<lparr>resource = (), prefix = ''/a//b''\<rparr>
     \<lparr>Method = ''PUT'', Path = ''/a//b'', Ctx = Background\<rparr> =
       Inr [Invoke Update \<lparr>Method = ''PUT'', Path = ''/a//b'',
                            Ctx = WithValue Background paramsKey (ParamsVal [''id'' \<mapsto> ''b''])\<rparr>]"
    by (simp add: ServeHTTP_def trimPath_def HasPrefix_def j m NewContext_def WithContext_def)
  from 1 t 2 show ?thesis by (simp add: mapIndex_def)
qed

text \<open>
  It also fails for a prefix in cleaned form one of whose own segments is \<^verbatim>\<open>:id\<close>: that
  segment binds \<^verbatim>\<open>id\<close> to the request's segment at its place.
\<close>

lemma collection_delete_id_segment_in_prefix:
  "Join [''/:id'', '':id''] = ''/:id/:id'' \<and>
   ServeHTTP \<lparr>resource = (), prefix = ''/:id''\<rparr>
     \<lparr>Method = ''DELETE'', Path = ''/:id'', Ctx = Background\<rparr> =
       Inr [Invoke Destroy \<lparr>Method = ''DELETE'', Path = ''/:id'',
                             Ctx = WithValue Background paramsKey (ParamsVal [''id'' \<mapsto> '':id''])\<rparr>]"
proof -
  have j: "Join [''/:id'', '':id''] = ''/:id/:id''"
    by (simp add: Join_def Clean_def clean_loop.simps)
  have m: "matchParams ''/:id'' ''/:id/:id'' = [''id'' \<mapsto> '':id'']"
    by (simp add: matchParams_def Split_Nil Split_Cons)
  show ?thesis
    by (simp add: ServeHTTP_def trimPath_def HasPrefix_def j m NewContext_def WithContext_def)
qed

text \<open>
  C4, amended. For a handler whose prefix P is in cleaned form (\<^verbatim>\<open>path.Join(P, ":id")\<close>
  is P followed by \<^verbatim>\<open>/:id\<close>) and has no segment \<^verbatim>\<open>:id\<close>, a PUT or DELETE request whose
  path, with its trailing slash dropped, is P is given to Update or Destroy, once, with
  route parameters attached. They hold no entry for \<^verbatim>\<open>id\<close> when the path is P, and map
  \<^verbatim>\<open>id\<close> to the empty string when the path is P with a trailing slash; read as Go reads
  a map, the value of \<^verbatim>\<open>id\<close> is the empty string in both cases.
\<close>

theorem collection_put_delete_empty_id:
  assumes clean: "Join [prefix h, '':id''] = prefix h @ ''/:id''"
    and noid: "'':id'' \<notin> set (Split (prefix h) CHR ''/'')"
    and path: "trimPath (Path r) = Inr (prefix h)"
    and verb: "Method r = ''PUT'' \<or> Method r = ''DELETE''"
  shows "\<exists>params.
           ServeHTTP h r =
             Inr [Invoke (if Method r = ''PUT'' then Update else Destroy)
                    (r\<lparr>Ctx := WithValue (Ctx r) paramsKey (ParamsVal params)\<rparr>)] \<and>
           FromContext (WithValue (Ctx r) paramsKey (ParamsVal params)) = (params, True) \<and>
           params ''id'' = (if Path r = prefix h then None else Some []) \<and>
           mapIndex params ''id'' = []"
proof -
  let ?params = "matchParams (Path r) (Join [prefix h, '':id''])"
  from path have cases: "Path r = prefix h @ ''/'' \<or> Path r = prefix h"
    by (auto simp: trimPath_eq_Inr)
  have ne: "prefix h @ ''/'' \<noteq> prefix h" by simp
  have id: "?params ''id'' = (if Path r = prefix h then None else Some [])"
  proof (cases "Path r = prefix h")
    case True
    then show ?thesis using matchParams_collection [OF noid] by (simp add: clean)
  next
    case False
    with cases have "Path r = prefix h @ ''/'' @ [] @ []" by simp
    then show ?thesis
      using False matchParams_item [of "[]" "[]" "prefix h"] by (simp add: clean)
  qed
  then have mi: "mapIndex ?params ''id'' = []" by (simp add: mapIndex_def)
  have "ServeHTTP h r =
          Inr [Invoke (if Method r = ''PUT'' then Update else Destroy)
                 (r\<lparr>Ctx := WithValue (Ctx r) paramsKey (ParamsVal ?params)\<rparr>)]"
    using verb path by (auto simp: ServeHTTP_def HasPrefix_refl NewContext_def WithContext_def)
  moreover have "FromContext (WithValue (Ctx r) paramsKey (ParamsVal ?params)) = (?params, True)"
    by (simp add: FromContext_def)
  ultimately show ?thesis using id mi by blast
qed

theorem collection_put_delete_empty_id_witness:
  "Join [prefix \<lparr>resource = (), prefix = ''/posts''\<rparr>, '':id''] = ''/posts/:id'' \<and>
   '':id'' \<notin> set (Split ''/posts'' CHR ''/'') \<and>
   trimPath ''/posts'' = Inr ''/posts'' \<and>
   (\<exists>params.
      ServeHTTP \<lparr>resource = (), prefix = ''/posts''\<rparr>
        \<lparr>Method = ''PUT'', Path = ''/posts'', Ctx = Background\<rparr> =
          Inr [Invoke Update \<lparr>Method = ''PUT'', Path = ''/posts'',
                               Ctx = WithValue Background paramsKey (ParamsVal params)\<rparr>] \<and>
      params ''id'' = None \<and> mapIndex params ''id'' = [])"
proof -
  let ?h = "\<lparr>resource = (), prefix = ''/posts''\<rparr>"
  let ?r = "\<lparr>Method = ''PUT'', Path = ''/posts'', Ctx = Background\<rparr>"
  have a: "Join [prefix ?h, '':id''] = prefix ?h @ ''/:id''"
    by (simp add: Join_def Clean_def clean_loop.simps)
  have b: "'':id'' \<notin> set (Split (prefix ?h) CHR ''/'')"
    by (simp add: Split_Nil Split_Cons)
  have c: "trimPath (Path ?r) = Inr (prefix ?h)" by (simp add: trimPath_def)
  have d: "Method ?r = ''PUT'' \<or> Method ?r = ''DELETE''" by simp
  from collection_put_delete_empty_id [OF a b c d] a b c show ?thesis by auto
qed

subsection \<open>C5: a path outside the prefix\<close>

text \<open>
  C5. When the request's path, with its trailing slash dropped, does not begin with the
  handler's prefix, the handler replies "not found" and calls none of the five methods
  of the resource, whatever the HTTP method is.
\<close>

theorem prefix_mismatch_not_found:
  assumes "trimPath (Path r) = Inr p" and "\<not> HasPrefix p (prefix h)"
  shows "ServeHTTP h r = Inr [Reply StatusNotFound] \<and>
         map_sum id invoked (ServeHTTP h r) = Inr []"
  using assms by (simp add: ServeHTTP_def)

theorem prefix_mismatch_not_found_witness:
  "trimPath (Path \<lparr>Method = ''DELETE'', Path = ''/other/1'', Ctx = Background\<rparr>) = Inr ''/other/1'' \<and>
   \<not> HasPrefix ''/other/1'' (prefix \<lparr>resource = (), prefix = ''/posts''\<rparr>) \<and>
   ServeHTTP \<lparr>resource = (), prefix = ''/posts''\<rparr>
     \<lparr>Method = ''DELETE'', Path = ''/other/1'', Ctx = Background\<rparr> = Inr [Reply StatusNotFound]"
proof -
  have a: "trimPath (Path \<lparr>Method = ''DELETE'', Path = ''/other/1'', Ctx = Background\<rparr>) = Inr ''/other/1''"
    by (simp add: trimPath_def)
  have b: "\<not> HasPrefix ''/other/1'' (prefix \<lparr>resource = (), prefix = ''/posts''\<rparr>)"
    by (simp add: HasPrefix_def)
  from prefix_mismatch_not_found [OF a b] a b show ?thesis by simp
qed

subsection \<open>C6: a method outside GET, POST, PUT and DELETE\<close>

text \<open>
  C6. When the path passes the prefix check and the HTTP method is none of GET, POST,
  PUT and DELETE, the handler replies "method not allowed" and calls none of the five
  methods of the resource.
\<close>

theorem unsupported_verb_not_allowed:
  assumes "trimPath (Path r) = Inr p" and "HasPrefix p (prefix h)"
    and "Method r \<notin> {''GET'', ''POST'', ''PUT'', ''DELETE''}"
  shows "ServeHTTP h r = Inr [Reply StatusMethodNotAllowed] \<and>
         map_sum id invoked (ServeHTTP h r) = Inr []"
  using assms by (simp add: ServeHTTP_def)

theorem unsupported_verb_not_allowed_witness:
  "trimPath (Path \<lparr>Method = ''PATCH'', Path = ''/posts/1'', Ctx = Background\<rparr>) = Inr ''/posts/1'' \<and>
   HasPrefix ''/posts/1'' (prefix \<lparr>resource = (), prefix = ''/posts''\<rparr>) \<and>
   ServeHTTP \<lparr>resource = (), prefix = ''/posts''\<rparr>
     \<lparr>Method = ''PATCH'', Path = ''/posts/1'', Ctx = Background\<rparr> = Inr [Reply StatusMethodNotAllowed]"
proof -
  have a: "trimPath (Path \<lparr>Method = ''PATCH'', Path = ''/posts/1'', Ctx = Background\<rparr>) = Inr ''/posts/1''"
    by (simp add: trimPath_def)
  have b: "HasPrefix ''/posts/1'' (prefix \<lparr>resource = (), prefix = ''/posts''\<rparr>)"
    by (simp add: HasPrefix_def)
  have c: "Method \<lparr>Method = ''PATCH'', Path = ''/posts/1'', Ctx = Background\<rparr>
             \<notin> {''GET'', ''POST'', ''PUT'', ''DELETE''}"
    by simp
  from unsupported_verb_not_allowed [OF a b c] a b show ?thesis by simp
qed

subsection \<open>C7: registering a resource\<close>

text \<open>
  C7. When \<open>HandleResource\<close> returns, it has added two entries to the multiplexer and
  no more: the pattern with its trailing slash dropped, P, and P with a slash. Neither
  was registered before. It has allocated one handler, and both entries point to it, so
  a request served through either entry is served by the same handler.
\<close>

theorem HandleResource_two_entries:
  assumes "HandleResource router pattern res = Inr router'"
  shows "\<exists>p hv. trimPath pattern = Inr p \<and> NewResourceHandler p res = Inr hv \<and>
           handlers router' = handlers router @ [hv] \<and>
           mux router' = mux router @ [(p, length (handlers router)), (p @ ''/'', length (handlers router))] \<and>
           p \<notin> fst ` set (mux router) \<and> p @ ''/'' \<notin> fst ` set (mux router) \<and>
           map_of (mux router') p = Some (length (handlers router)) \<and>
           map_of (mux router') (p @ ''/'') = Some (length (handlers router)) \<and>
           handlers router' ! length (handlers router) = hv"
proof -
  from assms obtain p where p: "trimPath pattern = Inr p"
    by (auto simp: HandleResource_def split: sum.splits)
  from assms p obtain hv where hv: "NewResourceHandler p res = Inr hv"
    by (auto simp: HandleResource_def split: sum.splits)
  let ?h = "length (handlers router)"
  let ?r1 = "router\<lparr>handlers := handlers router @ [hv]\<rparr>"
  from assms p hv obtain r2 where r2: "muxHandle ?r1 p ?h = Inr r2"
    and r': "muxHandle r2 (p @ ''/'') ?h = Inr router'"
    by (auto simp: HandleResource_def Let_def split: sum.splits)
  from r2 have a: "p \<notin> fst ` set (mux router)" and r2eq: "r2 = ?r1\<lparr>mux := mux router @ [(p, ?h)]\<rparr>"
    by (simp_all add: muxHandle_Inr)
  from r' r2eq have b: "p @ ''/'' \<notin> fst ` set (mux router)"
    and req: "router' = r2\<lparr>mux := mux r2 @ [(p @ ''/'', ?h)]\<rparr>"
    by (simp_all add: muxHandle_Inr)
  have hs: "handlers router' = handlers router @ [hv]" by (simp add: req r2eq)
  have mx: "mux router' = mux router @ [(p, ?h), (p @ ''/'', ?h)]" by (simp add: req r2eq)
  have na: "map_of (mux router) p = None" using a by (simp add: map_of_eq_None_iff)
  have nb: "map_of (mux router) (p @ ''/'') = None" using b by (simp add: map_of_eq_None_iff)
  have l1: "map_of (mux router') p = Some ?h" using na by (simp add: mx map_add_def)
  have l2: "map_of (mux router') (p @ ''/'') = Some ?h" using nb by (simp add: mx map_add_def)
  have l3: "handlers router' ! ?h = hv" by (simp add: hs)
  from p hv hs mx a b l1 l2 l3 show ?thesis by blast
qed

theorem HandleResource_two_entries_witness:
  "HandleResource NewRouter ''/posts/'' () =
     Inr \<lparr>handlers = [\<lparr>resource = (), prefix = ''/posts''\<rparr>],
          mux = [(''/posts'', 0), (''/posts/'', 0)]\<rparr> \<and>
   (\<exists>p hv. trimPath ''/posts/'' = Inr p \<and> NewResourceHandler p () = Inr hv \<and>
      map_of [(''/posts'', 0::nat), (''/posts/'', 0)] p = Some 0 \<and>
      map_of [(''/posts'', 0::nat), (''/posts/'', 0)] (p @ ''/'') = Some 0 \<and>
      [\<lparr>resource = (), prefix = ''/posts''\<rparr>] ! 0 = hv)"
proof -
  have a: "HandleResource NewRouter ''/posts/'' () =
     Inr \<lparr>handlers = [\<lparr>resource = (), prefix = ''/posts''\<rparr>],
          mux = [(''/posts'', 0), (''/posts/'', 0)]\<rparr>"
    by (simp add: HandleResource_def NewRouter_def trimPath_def NewResourceHandler_def
        muxHandle_def Let_def)
  from HandleResource_two_entries [OF a] a show ?thesis by (auto simp: NewRouter_def)
qed

subsection \<open>C8: POST\<close>

text \<open>
  C8, as the claim states it, fails for a POST request that arrives with route
  parameters already in its context. \<open>NewContext\<close> is exported, so a caller that wraps
  the handler can attach them; the handler gives Create the request as it came in, and
  \<open>FromContext\<close> inside Create finds them.
\<close>

theorem post_with_attached_params_counterexample:
  "NewContext Background \<lparr>Method = ''POST'', Path = ''/posts'', Ctx = Background\<rparr> ''/:section'' =
     WithValue Background paramsKey (ParamsVal [''section'' \<mapsto> ''posts'']) \<and>
   ServeHTTP \<lparr>resource = (), prefix = ''/posts''\<rparr>
     \<lparr>Method = ''POST'', Path = ''/posts'',
        Ctx = WithValue Background paramsKey (ParamsVal [''section'' \<mapsto> ''posts''])\<rparr> =
       Inr [Invoke Create
              \<lparr>Method = ''POST'', Path = ''/posts'',
                 Ctx = WithValue Background paramsKey (ParamsVal [''section'' \<mapsto> ''posts''])\<rparr>] \<and>
   FromContext (WithValue Background paramsKey (ParamsVal [''section'' \<mapsto> ''posts''])) =
     ([''section'' \<mapsto> ''posts''], True)"
proof -
  have m: "matchParams ''/posts'' ''/:section'' = [''section'' \<mapsto> ''posts'']"
    by (simp add: matchParams_def Split_Nil Split_Cons)
  have 1: "NewContext Background \<lparr>Method = ''POST'', Path = ''/posts'', Ctx = Background\<rparr> ''/:section'' =
     WithValue Background paramsKey (ParamsVal [''section'' \<mapsto> ''posts''])"
    by (simp add: NewContext_def m)
  have 2: "ServeHTTP \<lparr>resource = (), prefix = ''/posts''\<rparr>
     \<lparr>Method = ''POST'', Path = ''/posts'',
        Ctx = WithValue Background paramsKey (ParamsVal [''section'' \<mapsto> ''posts''])\<rparr> =
       Inr [Invoke Create
              \<lparr>Method = ''POST'', Path = ''/posts'',
                 Ctx = WithValue Background paramsKey (ParamsVal [''section'' \<mapsto> ''posts''])\<rparr>]"
    by (simp add: ServeHTTP_def trimPath_def HasPrefix_def)
  have 3: "FromContext (WithValue Background paramsKey (ParamsVal [''section'' \<mapsto> ''posts''])) =
     ([''section'' \<mapsto> ''posts''], True)"
    by (simp add: FromContext_def)
  from 1 2 3 show ?thesis by blast
qed

text \<open>
  C8, amended. A POST request whose path, with its trailing slash dropped, begins with
  the prefix is given to Create, once, whatever follows the prefix. Create receives the
  request as it came in: the handler attaches nothing to its context, so for a request
  that arrives with no value under the parameters' key, \<open>FromContext\<close> inside Create
  finds nothing.
\<close>

theorem post_dispatches_create:
  assumes "trimPath (Path r) = Inr p" and "HasPrefix p (prefix h)"
    and "Method r = ''POST''"
  shows "ServeHTTP h r = Inr [Invoke Create r] \<and>
         map_sum id invoked (ServeHTTP h r) = Inr [Create] \<and>
         (ctxValue (Ctx r) paramsKey = None \<longrightarrow> FromContext (Ctx r) = (Map.empty, False))"
  using assms by (simp add: ServeHTTP_def FromContext_def)

theorem post_dispatches_create_witness:
  "trimPath (Path \<lparr>Method = ''POST'', Path = ''/posts/9/x'', Ctx = Background\<rparr>) = Inr ''/posts/9/x'' \<and>
   HasPrefix ''/posts/9/x'' (prefix \<lparr>resource = (), prefix = ''/posts''\<rparr>) \<and>
   ctxValue Background paramsKey = None \<and>
   ServeHTTP \<lparr>resource = (), prefix = ''/posts''\<rparr>
     \<lparr>Method = ''POST'', Path = ''/posts/9/x'', Ctx = Background\<rparr> =
       Inr [Invoke Create \<lparr>Method = ''POST'', Path = ''/posts/9/x'', Ctx = Background\<rparr>] \<and>
   FromContext Background = (Map.empty, False)"
proof -
  let ?r = "\<lparr>Method = ''POST'', Path = ''/posts/9/x'', Ctx = Background\<rparr>"
  have a: "trimPath (Path ?r) = Inr ''/posts/9/x''"
    by (simp add: trimPath_def)
  have b: "HasPrefix ''/posts/9/x'' (prefix \<lparr>resource = (), prefix = ''/posts''\<rparr>)"
    by (simp add: HasPrefix_def)
  have c: "Method ?r = ''POST''" by simp
  have d: "ctxValue (Ctx ?r) paramsKey = None" by simp
  from post_dispatches_create [OF a b c] a b d show ?thesis by simp
qed

subsection \<open>C9: a prefix that ends inside a segment\<close>

text \<open>
  C9. The prefix check compares strings, not segments: the handler for \<^verbatim>\<open>/posts\<close>
  accepts the path \<^verbatim>\<open>/postsX\<close>. A GET request for it is not answered "not found"; it
  is given to Show, with route parameters attached that hold no entry for \<^verbatim>\<open>id\<close>.
\<close>

theorem raw_prefix_reaches_show:
  "NewResourceHandler ''/posts'' res = Inr \<lparr>resource = res, prefix = ''/posts''\<rparr> \<and>
   HasPrefix ''/postsX'' ''/posts'' \<and>
   ServeHTTP \<lparr>resource = res, prefix = ''/posts''\<rparr>
     \<lparr>Method = ''GET'', Path = ''/postsX'', Ctx = Background\<rparr> =
       Inr [Invoke Show \<lparr>Method = ''GET'', Path = ''/postsX'',
                          Ctx = WithValue Background paramsKey (ParamsVal Map.empty)\<rparr>] \<and>
   FromContext (WithValue Background paramsKey (ParamsVal Map.empty)) = (Map.empty, True) \<and>
   (Map.empty :: RouteParams) ''id'' = None"
proof -
  have 1: "NewResourceHandler ''/posts'' res = Inr \<lparr>resource = res, prefix = ''/posts''\<rparr>"
    by (simp add: NewResourceHandler_def trimPath_def)
  have 2: "HasPrefix ''/postsX'' ''/posts''" by (simp add: HasPrefix_def)
  have j: "Join [''/posts'', '':id''] = ''/posts/:id''"
    by (simp add: Join_def Clean_def clean_loop.simps)
  have m: "matchParams ''/postsX'' ''/posts/:id'' = Map.empty"
    by (simp add: matchParams_def Split_Nil Split_Cons)
  have 3: "ServeHTTP \<lparr>resource = res, prefix = ''/posts''\<rparr>
     \<lparr>Method = ''GET'', Path = ''/postsX'', Ctx = Background\<rparr> =
       Inr [Invoke Show \<lparr>Method = ''GET'', Path = ''/postsX'',
                          Ctx = WithValue Background paramsKey (ParamsVal Map.empty)\<rparr>]"
    by (simp add: ServeHTTP_def trimPath_def HasPrefix_def TrimPrefix_def j m
        NewContext_def WithContext_def)
  have 4: "FromContext (WithValue Background paramsKey (ParamsVal Map.empty)) = (Map.empty, True)"
    by (simp add: FromContext_def)
  from 1 2 3 4 show ?thesis by simp
qed

subsection \<open>C10: the empty string\<close>

text \<open>
  C10. \<open>trimPath\<close> reads the last byte of its argument with no check for the empty
  string, so it panics on the empty string and only there. With it,
  \<open>NewResourceHandler\<close> panics on the empty prefix (and on the prefix \<^verbatim>\<open>/\<close>, which its
  own first trim empties), and \<open>ServeHTTP\<close> panics exactly on a request whose path is
  empty: every caller needs a non-empty argument.
\<close>

theorem trimPath_panics_iff_empty:
  "isl (trimPath p) = (p = []) \<and>
   trimPath [] = Inl IndexOutOfRange \<and>
   NewResourceHandler [] res = Inl IndexOutOfRange \<and>
   NewResourceHandler ''/'' res = Inl IndexOutOfRange \<and>
   isl (NewResourceHandler pre res) = (pre = [] \<or> pre = ''/'') \<and>
   isl (ServeHTTP h r) = (Path r = []) \<and>
   (ServeHTTP h r = Inl IndexOutOfRange) = (Path r = [])"
proof -
  have 1: "isl (trimPath p) = (p = [])" by (simp add: trimPath_def)
  have 2: "trimPath [] = Inl IndexOutOfRange" by (simp add: trimPath_def)
  have 3: "NewResourceHandler [] res = Inl IndexOutOfRange"
    by (simp add: NewResourceHandler_def)
  have 4: "NewResourceHandler ''/'' res = Inl IndexOutOfRange"
    by (simp add: NewResourceHandler_def trimPath_def)
  have 5: "isl (ServeHTTP h r) = (Path r = [])"
    by (simp add: ServeHTTP_def trimPath_def Let_def)
  have 6: "(ServeHTTP h r = Inl IndexOutOfRange) = (Path r = [])"
    by (simp add: ServeHTTP_def trimPath_def Let_def)
  have 7: "isl (NewResourceHandler pre res) = (pre = [] \<or> pre = ''/'')"
    by (rule NewResourceHandler_panics)
  from 1 2 3 4 5 6 7 show ?thesis by blast
qed

subsection \<open>Which prefixes are in cleaned form\<close>

text \<open>
  The amended C1 and C4 ask that \<^verbatim>\<open>path.Join\<close> leaves the prefix as it is. Every
  absolute prefix made of plain segments, such as \<^verbatim>\<open>/posts\<close> or \<^verbatim>\<open>/api/posts\<close>, is so:
  joined with \<^verbatim>\<open>:id\<close> it is the prefix followed by \<^verbatim>\<open>/:id\<close>.
\<close>

theorem Join_plain:
  assumes "segs \<noteq> []" and "\<forall>s \<in> set segs. plainSegment s"
  shows "Join [concat (map ((#) CHR ''/'') segs), '':id''] =
           concat (map ((#) CHR ''/'') segs) @ ''/:id''"
proof -
  have id: "plainSegment '':id''" by (simp add: plainSegment_def)
  have ne: "concat (map ((#) CHR ''/'') segs) \<noteq> []" using assms(1) by (cases segs) auto
  have "Clean (concat (map ((#) CHR ''/'') (segs @ ['':id'']))) =
          concat (map ((#) CHR ''/'') (segs @ ['':id'']))"
    using assms id by (intro Clean_plain) auto
  then show ?thesis using ne by (simp add: Join_def split: list.splits)
qed

theorem Join_plain_witness:
  "[''api'', ''posts''] \<noteq> [] \<and> plainSegment ''api'' \<and> plainSegment ''posts'' \<and>
   Join [''/api/posts'', '':id''] = ''/api/posts/:id''"
proof -
  have a: "[''api'', ''posts''] \<noteq> []" by simp
  have b: "\<forall>s \<in> set [''api'', ''posts'']. plainSegment s" by (simp add: plainSegment_def)
  from Join_plain [OF a b] b show ?thesis by simp
qed

end
